theory Spec2Isabelle
  imports Complex_Main
begin

section \<open>BackgroundProcessingPool: data model\<close>

text \<open>
  The embedding follows \<^verbatim>\<open>dbms/src/Storages/MergeTree/BackgroundProcessingPool.cpp\<close>.
  A \<^verbatim>\<open>TaskHandle\<close> is a shared pointer to a \<^verbatim>\<open>TaskInfo\<close>; the objects live in a
  store indexed by handles, and the task list holds handles. Values of \<^verbatim>\<open>time_t\<close> are
  integers (seconds); values of \<^verbatim>\<open>double\<close> are idealised as exact rationals, and the
  conversion of a \<^verbatim>\<open>double\<close> to \<^verbatim>\<open>time_t\<close> truncates towards zero.
\<close>

type_synonym handle = nat
type_synonym time_t = int
type_synonym Counters = "(string \<times> int) list"

text \<open>
  A task callable receives a \<^verbatim>\<open>Context\<close>, whose only operation is \<^verbatim>\<open>increment\<close>, and
  either returns a boolean or throws. One invocation is therefore described by the
  sequence of \<^verbatim>\<open>increment\<close> calls it makes and by the way it ends.
\<close>

datatype outcome = Returned bool | Threw

record TaskInfo =
  task_function :: "(string \<times> int) list \<times> outcome"
  next_time_to_execute :: time_t
  removed :: bool

record pool =
  tasks :: "handle list"
  heap :: "handle \<Rightarrow> TaskInfo"
  allocated :: nat
  counters :: Counters
  shutdown :: bool

text \<open>
  What a thread does that other threads can see: lock operations, waits and
  notifications on \<^verbatim>\<open>wake_event\<close>, task invocations and writes of a ready time.
  \<open>Wait_for d\<close> is \<^verbatim>\<open>wake_event.wait_for\<close> with a timeout of \<open>d\<close> seconds, called with
  \<^verbatim>\<open>tasks_mutex\<close> locked; \<open>Sleep_for d\<close> is \<^verbatim>\<open>std::this_thread::sleep_for\<close>.
\<close>

datatype event =
    Lock_tasks_mutex
  | Unlock_tasks_mutex
  | Lock_counters_mutex
  | Unlock_counters_mutex
  | Lock_shared handle
  | Unlock_shared handle
  | Lock_exclusive handle
  | Unlock_exclusive handle
  | Sleep_for rat
  | Wait_for rat
  | Notify_one
  | Notify_all
  | Invoke handle
  | Write_next_time handle time_t
  | Log_exception

text \<open>
  Modelled from the spec: the constants \<^verbatim>\<open>sleep_seconds\<close> and
  \<^verbatim>\<open>sleep_seconds_random_part\<close> are declared in \<^verbatim>\<open>BackgroundProcessingPool.h\<close>, which is
  not among the sources; the spec gives their values as 10.0 and 1.0.
\<close>

definition sleep_seconds :: rat where
  "sleep_seconds = 10"


definition time_t_max :: time_t where
  "time_t_max = 2 ^ 63 - 1"

definition double_to_time_t :: "rat \<Rightarrow> time_t" where
  "double_to_time_t x = (if 0 \<le> x then \<lfloor>x\<rfloor> else \<lceil>x\<rceil>)"

subsection \<open>The task list\<close>

text \<open>
  \<^verbatim>\<open>tasks.splice(tasks.begin(), tasks, it)\<close> and \<^verbatim>\<open>tasks.splice(tasks.end(), tasks, it)\<close>
  move the node of one task; \<^verbatim>\<open>tasks.erase(it)\<close> unlinks it. Every task owns one node.
\<close>

definition splice_front :: "handle \<Rightarrow> handle list \<Rightarrow> handle list" where
  "splice_front h ts = h # remove1 h ts"

definition splice_end :: "handle \<Rightarrow> handle list \<Rightarrow> handle list" where
  "splice_end h ts = remove1 h ts @ [h]"

definition erase :: "handle \<Rightarrow> handle list \<Rightarrow> handle list" where
  "erase h ts = remove1 h ts"

subsection \<open>Counters\<close>

text \<open>
  A \<^verbatim>\<open>std::map\<close> from names to integers is an association list in which every name
  occurs once; a new name goes to the end, and nothing below depends on the order of
  the entries. \<^verbatim>\<open>counters[name]\<close> inserts the value 0 for an absent name, and
  \<open>counter_upd name f\<close> is \<^verbatim>\<open>counters[name] = f(counters[name])\<close>.
\<close>

definition counter_get :: "Counters \<Rightarrow> string \<Rightarrow> int" where
  "counter_get c name = (case map_of c name of None \<Rightarrow> 0 | Some v \<Rightarrow> v)"

fun counter_upd :: "string \<Rightarrow> (int \<Rightarrow> int) \<Rightarrow> Counters \<Rightarrow> Counters" where
  "counter_upd name f [] = [(name, f 0)]"
| "counter_upd name f ((k, v) # c) =
     (if k = name then (k, f v) # c else (k, v) # counter_upd name f c)"

definition getCounter :: "string \<Rightarrow> pool \<Rightarrow> int \<times> pool" where
  "getCounter name s =
     (counter_get (counters s) name, s\<lparr>counters := counter_upd name (\<lambda>v. v) (counters s)\<rparr>)"

text \<open>
  Modelled from the spec: \<^verbatim>\<open>Context::increment\<close> is defined in
  \<^verbatim>\<open>BackgroundProcessingPool.h\<close>, which is not among the sources. Under
  \<^verbatim>\<open>counters_mutex\<close> it adds the delta to the pool's counter and records it in the
  local map. The pair is (shared counters, \<^verbatim>\<open>counters_diff\<close>).
\<close>

definition increment :: "string \<times> int \<Rightarrow> Counters \<times> Counters \<Rightarrow> Counters \<times> Counters" where
  "increment call c =
     (counter_upd (fst call) (\<lambda>v. v + snd call) (fst c),
      counter_upd (fst call) (\<lambda>v. v + snd call) (snd c))"

definition increment_events :: "string \<times> int \<Rightarrow> event list" where
  "increment_events call =
     [Lock_counters_mutex, Unlock_counters_mutex]"

text \<open>Lines 200-206: the loop that subtracts every entry of \<^verbatim>\<open>counters_diff\<close>.\<close>

fun subtract_all :: "Counters \<Rightarrow> Counters \<Rightarrow> Counters" where
  "subtract_all [] shared = shared"
| "subtract_all ((k, d) # diff) shared = subtract_all diff (counter_upd k (\<lambda>v. v - d) shared)"

definition subtract_counters :: "Counters \<Rightarrow> pool \<Rightarrow> pool \<times> event list" where
  "subtract_counters diff s =
     (if diff \<noteq> []
      then (s\<lparr>counters := subtract_all diff (counters s)\<rparr>,
            [Lock_counters_mutex, Unlock_counters_mutex])
      else (s, []))"

section \<open>Operations of the pool facade\<close>

text \<open>\<^verbatim>\<open>TaskInfo::wake\<close>, lines 18-36; \<open>current_time\<close> is the value of \<^verbatim>\<open>time(0)\<close>.\<close>

definition wake :: "handle \<Rightarrow> time_t \<Rightarrow> pool \<Rightarrow> pool \<times> event list" where
  "wake h current_time s =
     (if removed (heap s h) then (s, [])
      else
        let s1 = s\<lparr>tasks := splice_front h (tasks s)\<rparr>;
            s2 = (if next_time_to_execute (heap s1 h) > current_time
                  then s1\<lparr>heap := (heap s1)(h := (heap s1 h)\<lparr>next_time_to_execute := current_time\<rparr>)\<rparr>
                  else s1);
            writes = (if next_time_to_execute (heap s1 h) > current_time
                      then [Write_next_time h current_time] else [])
        in (s2, [Lock_tasks_mutex] @ writes @ [Unlock_tasks_mutex, Notify_one]))"

text \<open>
  \<^verbatim>\<open>addTask\<close>, lines 55-67. Modelled from the spec: the constructor of \<^verbatim>\<open>TaskInfo\<close> is in
  \<^verbatim>\<open>BackgroundProcessingPool.h\<close>, which is not among the sources; the spec gives the
  initial ready time 0, and a new task is not removed.
\<close>

definition addTask :: "(string \<times> int) list \<times> outcome \<Rightarrow> pool \<Rightarrow> handle \<times> pool \<times> event list" where
  "addTask task s =
     (let res = allocated s;
          info = \<lparr>task_function = task, next_time_to_execute = 0, removed = False\<rparr>
      in (res,
          s\<lparr>tasks := res # tasks s, heap := (heap s)(res := info), allocated := Suc (allocated s)\<rparr>,
          [Lock_tasks_mutex, Unlock_tasks_mutex, Notify_all]))"

text \<open>\<^verbatim>\<open>removeTask\<close>, lines 69-83. \<^verbatim>\<open>removed.exchange(true)\<close> stores true and yields the old value.\<close>

definition removeTask :: "handle \<Rightarrow> pool \<Rightarrow> pool \<times> event list" where
  "removeTask h s =
     (let old = removed (heap s h);
          s1 = s\<lparr>heap := (heap s)(h := (heap s h)\<lparr>removed := True\<rparr>)\<rparr>
      in if old then (s1, [])
         else (s1\<lparr>tasks := erase h (tasks s1)\<rparr>,
               [Lock_exclusive h, Unlock_exclusive h, Lock_tasks_mutex, Unlock_tasks_mutex]))"

section \<open>The scheduler loop\<close>

subsection \<open>Selection, lines 116-155\<close>

text \<open>
  Lines 139-145: one task is compared with the running minimum. The pair is
  (\<^verbatim>\<open>min_time\<close>, \<^verbatim>\<open>task\<close>).
\<close>

definition visit :: "(handle \<Rightarrow> TaskInfo) \<Rightarrow> time_t \<times> handle option \<Rightarrow> handle
    \<Rightarrow> time_t \<times> handle option" where
  "visit hp acc h =
     (if next_time_to_execute (hp h) < fst acc
      then (next_time_to_execute (hp h), Some h) else acc)"

text \<open>Lines 133-150: the scan over the list; \<open>i\<close> counts the tasks compared so far.\<close>

fun scan :: "(handle \<Rightarrow> TaskInfo) \<Rightarrow> handle list \<Rightarrow> nat \<Rightarrow> time_t \<times> handle option
    \<Rightarrow> time_t \<times> handle option" where
  "scan hp [] i acc = acc"
| "scan hp (h # hs) i acc =
     (if removed (hp h) then scan hp hs i acc
      else
        let acc' = visit hp acc h
        in if Suc i > 100 then acc' else scan hp hs (Suc i) acc')"

definition select_task :: "pool \<Rightarrow> pool \<times> handle option \<times> time_t" where
  "select_task s =
     (if tasks s \<noteq> []
      then
        (case scan (heap s) (tasks s) 0 (time_t_max, None) of
           (min_time, None) \<Rightarrow> (s, None, min_time)
         | (min_time, Some h) \<Rightarrow> (s\<lparr>tasks := splice_end h (tasks s)\<rparr>, Some h, min_time))
      else (s, None, time_t_max))"

subsection \<open>One iteration of the loop, lines 110-215\<close>

text \<open>
  What one iteration reads from outside the pool's guarded state:
  \<^item> \<open>rng_draw\<close>: the value of \<^verbatim>\<open>uniform_real_distribution(0, sleep_seconds_random_part)\<close>,
    drawn at line 165 or at line 175;
  \<^item> \<open>time_before\<close> and \<open>time_after\<close>: \<^verbatim>\<open>time(0)\<close> at line 170 and at line 191;
  \<^item> \<open>shutdown_mid\<close> and \<open>shutdown_late\<close>: whether the loads of the atomic \<^verbatim>\<open>shutdown\<close> at
    line 157 and at line 208 see a store made by the destructor in the meantime;
  \<^item> \<open>removed_mid\<close>: whether the load of the atomic \<^verbatim>\<open>removed\<close> at line 180 sees a store
    made by \<^verbatim>\<open>removeTask\<close> on another thread since the selection.
\<close>

record env =
  rng_draw :: rat
  shutdown_mid :: bool
  time_before :: time_t
  removed_mid :: bool
  time_after :: time_t
  shutdown_late :: bool


datatype exit = Fallthrough | Continue_loop | Break_loop | Exception

datatype ctl = Continue | Break

text \<open>Lines 183-192: the invocation of the callable and the update of the ready time.\<close>

definition invoke_task :: "env \<Rightarrow> handle \<Rightarrow> pool \<Rightarrow> exit \<times> pool \<times> Counters \<times> event list" where
  "invoke_task e h s =
     (let calls = fst (task_function (heap s h));
          c = fold increment calls (counters s, []);
          s1 = s\<lparr>counters := fst c\<rparr>;
          ev = Invoke h # concat (map increment_events calls)
      in case snd (task_function (heap s h)) of
           Threw \<Rightarrow> (Exception, s1, snd c, ev)
         | Returned done_work \<Rightarrow>
             let t = double_to_time_t
                       (of_int (time_after e) + (if done_work then 0 else sleep_seconds))
             in (Fallthrough,
                 s1\<lparr>heap := (heap s1)(h := (heap s1 h)\<lparr>next_time_to_execute := t\<rparr>)\<rparr>,
                 snd c, ev @ [Write_next_time h t]))"

text \<open>Lines 113-193: the body of the \<^verbatim>\<open>try\<close> block and the way it is left.\<close>

definition try_block :: "env \<Rightarrow> pool \<Rightarrow> exit \<times> pool \<times> Counters \<times> event list" where
  "try_block e s =
     (case select_task s of (s1, task, min_time) \<Rightarrow>
        let ev1 = [Lock_tasks_mutex, Unlock_tasks_mutex]
        in if shutdown s1 \<or> shutdown_mid e then (Break_loop, s1, [], ev1)
           else
             (case task of
                None \<Rightarrow>
                  (Continue_loop, s1, [],
                   ev1 @ [Lock_tasks_mutex, Wait_for (sleep_seconds + rng_draw e),
                          Unlock_tasks_mutex])
              | Some h \<Rightarrow>
                  (let ev2 = ev1 @
                         (if min_time > time_before e
                          then [Lock_tasks_mutex,
                                Wait_for (of_int (min_time - time_before e) + rng_draw e),
                                Unlock_tasks_mutex]
                          else []) @ [Lock_shared h]
                   in if removed (heap s1 h) \<or> removed_mid e
                      then (Continue_loop, s1, [], ev2 @ [Unlock_shared h])
                      else
                        (case invoke_task e h s1 of (x, s2, diff, ev3) \<Rightarrow>
                           (x, s2, diff, ev2 @ ev3 @ [Unlock_shared h])))))"

definition iteration :: "env \<Rightarrow> pool \<Rightarrow> ctl \<times> pool \<times> event list" where
  "iteration e s =
     (case try_block e s of (x, s1, counters_diff, ev) \<Rightarrow>
        if x = Continue_loop then (Continue, s1, ev)
        else if x = Break_loop then (Break, s1, ev)
        else
          let has_exception = (x = Exception);
              ev1 = ev @ (if has_exception then [Log_exception] else [])
          in case subtract_counters counters_diff s1 of (s2, ev2) \<Rightarrow>
               if shutdown s2 \<or> shutdown_late e then (Break, s2, ev1 @ ev2)
               else if has_exception
               then (Continue, s2,
                     ev1 @ ev2 @ [Lock_tasks_mutex, Wait_for sleep_seconds, Unlock_tasks_mutex])
               else (Continue, s2, ev1 @ ev2))"

subsection \<open>The loop, lines 101-217\<close>

text \<open>
  The loop runs until \<^verbatim>\<open>shutdown\<close> is seen. Each iteration consumes the observations
  it needs, paired with whether the load of \<^verbatim>\<open>shutdown\<close> in the loop condition sees a
  store by another thread; the result is \<open>None\<close> when the observations run out
  before the loop ends.
\<close>

fun run_loop :: "(bool \<times> env) list \<Rightarrow> pool \<Rightarrow> (pool \<times> event list) option" where
  "run_loop [] s = None"
| "run_loop ((shutdown_head, e) # es) s =
     (if shutdown s \<or> shutdown_head then Some (s, [])
      else
        (case iteration e s of
           (Break, s1, ev) \<Rightarrow> Some (s1, ev)
         | (Continue, s1, ev) \<Rightarrow>
             (case run_loop es s1 of
                None \<Rightarrow> None
              | Some (s2, ev2) \<Rightarrow> Some (s2, ev @ ev2))))"

definition threadFunction :: "rat \<Rightarrow> (bool \<times> env) list \<Rightarrow> pool \<Rightarrow> (pool \<times> event list) option" where
  "threadFunction first_draw es s =
     (case run_loop es s of
        None \<Rightarrow> None
      | Some (s1, ev) \<Rightarrow> Some (s1, Sleep_for first_draw # ev))"

section \<open>Notions used in the statements\<close>

text \<open>
  The tasks that the scan compares with the running minimum: the tasks of the list that
  are not removed, up to the one at which the counter passes 100.
\<close>

definition visited :: "(handle \<Rightarrow> TaskInfo) \<Rightarrow> handle list \<Rightarrow> handle list" where
  "visited hp ts = take 101 (filter (\<lambda>h. \<not> removed (hp h)) ts)"

text \<open>
  Whether every write of a ready time in a trace happens between a lock and the next
  unlock of \<^verbatim>\<open>tasks_mutex\<close>; the flag says whether the mutex is held.
\<close>

fun writes_under_tasks_mutex :: "bool \<Rightarrow> event list \<Rightarrow> bool" where
  "writes_under_tasks_mutex held [] = True"
| "writes_under_tasks_mutex held (Lock_tasks_mutex # evs) = writes_under_tasks_mutex True evs"
| "writes_under_tasks_mutex held (Unlock_tasks_mutex # evs) = writes_under_tasks_mutex False evs"
| "writes_under_tasks_mutex held (Write_next_time h t # evs) =
     (held \<and> writes_under_tasks_mutex held evs)"
| "writes_under_tasks_mutex held (ev # evs) = writes_under_tasks_mutex held evs"

subsection \<open>Example states\<close>

text \<open>
  The pool after construction: no tasks, no counters. Cells of the store that no
  \<^verbatim>\<open>addTask\<close> has allocated yet are never read.
\<close>

definition idle_info :: TaskInfo where
  "idle_info = \<lparr>task_function = ([], Returned False), next_time_to_execute = 0, removed = False\<rparr>"

definition new_pool :: pool where
  "new_pool = \<lparr>tasks = [], heap = (\<lambda>_. idle_info), allocated = 0, counters = [], shutdown = False\<rparr>"

text \<open>
  Three tasks: task 0 did nothing at its last run and sleeps until second 100, task 1 is
  being removed (its flag is set, its node not yet erased), task 2 is due at second 30 and
  throws after two calls of \<^verbatim>\<open>increment\<close>.
\<close>

definition example_heap :: "handle \<Rightarrow> TaskInfo" where
  "example_heap = (\<lambda>_. idle_info)
     (0 := \<lparr>task_function = ([(''merges'', 2)], Returned True),
            next_time_to_execute = 100, removed = False\<rparr>,
      1 := \<lparr>task_function = ([], Returned False),
            next_time_to_execute = 0, removed = True\<rparr>,
      2 := \<lparr>task_function = ([(''fetches'', 5), (''merges'', 1)], Threw),
            next_time_to_execute = 30, removed = False\<rparr>)"

definition example_pool :: pool where
  "example_pool = \<lparr>tasks = [0, 1, 2], heap = example_heap, allocated = 3,
     counters = [(''merges'', 1)], shutdown = False\<rparr>"

definition example_env :: env where
  "example_env = \<lparr>rng_draw = 1 / 2, shutdown_mid = False, time_before = 10,
     removed_mid = False, time_after = 12, shutdown_late = False\<rparr>"

text \<open>
  A pool of 101 live tasks: the first hundred are due at second 7, the last one of the
  list at second 3.
\<close>

definition crowded_pool :: pool where
  "crowded_pool = \<lparr>tasks = [0..<101],
     heap = (\<lambda>h. idle_info\<lparr>next_time_to_execute := (if h = 100 then 3 else 7)\<rparr>),
     allocated = 101, counters = [], shutdown = False\<rparr>"

text \<open>A fresh pool to which two tasks have been added: both are due at second 0.\<close>

definition pair_pool :: pool where
  "pair_pool =
     fst (snd (addTask ([], Returned True) (fst (snd (addTask ([], Returned True) new_pool)))))"

section \<open>Properties\<close>

subsection \<open>Counters\<close>

lemma counter_get_upd:
  "counter_get (counter_upd n f c) k = (if k = n then f (counter_get c n) else counter_get c k)"
  by (induction c) (auto simp: counter_get_def)

lemma keys_counter_upd:
  "map fst (counter_upd n f c) = (if n \<in> set (map fst c) then map fst c else map fst c @ [n])"
  by (induction c) (force+)

lemma distinct_counter_upd:
  "distinct (map fst c) \<Longrightarrow> distinct (map fst (counter_upd n f c))"
  by (simp only: keys_counter_upd) simp

subsection \<open>The selection scan\<close>

lemma scan_take:
  "i \<le> 100 \<Longrightarrow>
     scan hp ts i acc = foldl (visit hp) acc (take (101 - i) (filter (\<lambda>h. \<not> removed (hp h)) ts))"
proof (induction ts arbitrary: i acc)
  case Nil
  then show ?case by simp
next
  case (Cons h hs)
  show ?case
  proof (cases "removed (hp h)")
    case True
    then show ?thesis using Cons by simp
  next
    case live: False
    show ?thesis
    proof (cases "i = 100")
      case True
      then show ?thesis using live by (simp add: Let_def)
    next
      case False
      then have "Suc i \<le> 100" using Cons.prems by simp
      then show ?thesis using live Cons.IH [of "Suc i"] Cons.prems
        by (simp add: Let_def Suc_diff_le take_Cons')
    qed
  qed
qed

lemma scan_visited: "scan hp ts 0 acc = foldl (visit hp) acc (visited hp ts)"
  using scan_take [of 0 hp ts acc] by (simp add: visited_def)

lemma foldl_visit_inv:
  "foldl (visit hp) (m0, None) cs = (m, t) \<Longrightarrow>
     m \<le> m0 \<and> (\<forall>x \<in> set cs. m \<le> next_time_to_execute (hp x)) \<and>
     (t = None \<longrightarrow> m = m0) \<and>
     (\<forall>h. t = Some h \<longrightarrow> next_time_to_execute (hp h) = m \<and> m < m0 \<and>
          (\<exists>pre post. cs = pre @ h # post \<and> (\<forall>x \<in> set pre. m < next_time_to_execute (hp x))))"
proof (induction cs arbitrary: m t rule: rev_induct)
  case Nil
  then show ?case by simp
next
  case (snoc x cs)
  obtain m' t' where mt: "foldl (visit hp) (m0, None) cs = (m', t')" by force
  note ih = snoc.IH [OF mt]
  have step: "(m, t) = visit hp (m', t') x" using snoc.prems mt by simp
  show ?case
  proof (cases "next_time_to_execute (hp x) < m'")
    case True
    then have res: "m = next_time_to_execute (hp x)" "t = Some x"
      using step by (simp_all add: visit_def)
    have lt: "\<forall>y \<in> set cs. m < next_time_to_execute (hp y)"
      using ih True res by fastforce
    have "cs @ [x] = cs @ x # []" by simp
    then have "\<exists>pre post. cs @ [x] = pre @ x # post \<and>
        (\<forall>y \<in> set pre. m < next_time_to_execute (hp y))"
      using lt by blast
    then show ?thesis using ih True res lt by auto
  next
    case False
    then have res: "m = m'" "t = t'" using step by (simp_all add: visit_def)
    have "\<exists>pre post. cs @ [x] = pre @ h # post \<and>
          (\<forall>y \<in> set pre. m < next_time_to_execute (hp y))" if th: "t = Some h" for h
    proof -
      obtain pre post where pp: "cs = pre @ h # post"
          "\<forall>y \<in> set pre. m < next_time_to_execute (hp y)"
        using ih res th by blast
      then have "cs @ [x] = pre @ h # (post @ [x])" by simp
      then show ?thesis using pp(2) by blast
    qed
    then show ?thesis using ih False res by auto
  qed
qed

lemma visited_live: "h \<in> set (visited hp ts) \<Longrightarrow> h \<in> set ts \<and> \<not> removed (hp h)"
  by (auto simp: visited_def dest: in_set_takeD)

lemma select_task_Some:
  assumes "select_task s = (s1, Some h, mt)"
  shows "s1 = s\<lparr>tasks := remove1 h (tasks s) @ [h]\<rparr>"
    and "mt = next_time_to_execute (heap s h)"
    and "\<forall>x \<in> set (visited (heap s) (tasks s)). mt \<le> next_time_to_execute (heap s x)"
    and "\<exists>pre post. visited (heap s) (tasks s) = pre @ h # post \<and>
           (\<forall>x \<in> set pre. mt < next_time_to_execute (heap s x))"
    and "h \<in> set (tasks s)" and "\<not> removed (heap s h)"
proof -
  have ne: "tasks s \<noteq> []" using assms by (auto simp: select_task_def split: if_splits)
  then have sc: "foldl (visit (heap s)) (time_t_max, None) (visited (heap s) (tasks s)) = (mt, Some h)"
    and s1: "s1 = s\<lparr>tasks := remove1 h (tasks s) @ [h]\<rparr>"
    using assms
    by (auto simp: select_task_def scan_visited splice_end_def split: prod.splits option.splits)
  show "s1 = s\<lparr>tasks := remove1 h (tasks s) @ [h]\<rparr>" by (rule s1)
  note inv = foldl_visit_inv [OF sc]
  show "mt = next_time_to_execute (heap s h)" using inv by simp
  show "\<forall>x \<in> set (visited (heap s) (tasks s)). mt \<le> next_time_to_execute (heap s x)"
    using inv by simp
  show ex: "\<exists>pre post. visited (heap s) (tasks s) = pre @ h # post \<and>
           (\<forall>x \<in> set pre. mt < next_time_to_execute (heap s x))"
    using inv by simp
  then have "h \<in> set (visited (heap s) (tasks s))" by auto
  then show "h \<in> set (tasks s)" and "\<not> removed (heap s h)"
    using visited_live by blast+
qed

lemma select_task_frame:
  "select_task s = (s1, t, mt) \<Longrightarrow>
     heap s1 = heap s \<and> counters s1 = counters s \<and> shutdown s1 = shutdown s \<and>
     allocated s1 = allocated s"
  by (auto simp: select_task_def split: if_splits prod.splits option.splits)

subsection \<open>Removal and wake\<close>

lemma removed_update_same: "removed t \<Longrightarrow> t\<lparr>removed := True\<rparr> = t"
  by simp

text \<open>
  C6. \<^verbatim>\<open>removeTask\<close> is idempotent. The exchange leaves the flag true; a call that finds
  the flag already true returns the pool as it was, every task record included, and
  performs no lock operation: it neither takes the task's rwlock nor touches the list.
  A second call after any call is such a call.
\<close>

theorem removeTask_idempotent:
  "removed (heap (fst (removeTask h s)) h) \<and>
   (removed (heap s h) \<longrightarrow> removeTask h s = (s, [])) \<and>
   removeTask h (fst (removeTask h s)) = (fst (removeTask h s), [])"
proof -
  have set: "removed (heap (fst (removeTask h s)) h)"
    by (simp add: removeTask_def Let_def)
  have again: "removeTask h s' = (s', [])" if r: "removed (heap s' h)" for s'
    using r by (simp add: removeTask_def Let_def removed_update_same)
  show ?thesis using set again by blast
qed

theorem removeTask_idempotent_witness:
  "removed (heap example_pool 1) \<and>
   removeTask 1 example_pool = (example_pool, []) \<and>
   tasks (fst (removeTask 2 example_pool)) = [0, 1] \<and>
   removeTask 2 (fst (removeTask 2 example_pool)) = (fst (removeTask 2 example_pool), [])"
proof -
  have r: "removed (heap example_pool 1)"
    by (simp add: example_pool_def example_heap_def)
  have t: "tasks (fst (removeTask 2 example_pool)) = [0, 1]"
    by (simp add: removeTask_def erase_def example_pool_def example_heap_def)
  show ?thesis
    using r t removeTask_idempotent [of 1 example_pool] removeTask_idempotent [of 2 example_pool]
    by simp
qed

text \<open>
  C7. \<^verbatim>\<open>wake\<close> on a removed task changes nothing and notifies nobody. On a task that is
  not removed it moves the task to the front of the list, lowers the ready time to the
  current time exactly when it was strictly later and leaves it as it was otherwise,
  changes nothing else, does both under \<^verbatim>\<open>tasks_mutex\<close>, and then notifies one waiter.
\<close>

theorem wake_effect:
  "(removed (heap s h) \<longrightarrow> wake h now s = (s, [])) \<and>
   (\<not> removed (heap s h) \<longrightarrow>
      tasks (fst (wake h now s)) = h # remove1 h (tasks s) \<and>
      heap (fst (wake h now s)) h =
        (heap s h)\<lparr>next_time_to_execute :=
           (if next_time_to_execute (heap s h) > now then now
            else next_time_to_execute (heap s h))\<rparr> \<and>
      (\<forall>h'. h' \<noteq> h \<longrightarrow> heap (fst (wake h now s)) h' = heap s h') \<and>
      counters (fst (wake h now s)) = counters s \<and>
      shutdown (fst (wake h now s)) = shutdown s \<and>
      allocated (fst (wake h now s)) = allocated s \<and>
      snd (wake h now s) =
        (if next_time_to_execute (heap s h) > now
         then [Lock_tasks_mutex, Write_next_time h now, Unlock_tasks_mutex, Notify_one]
         else [Lock_tasks_mutex, Unlock_tasks_mutex, Notify_one]))"
  by (simp add: wake_def Let_def splice_front_def)

theorem wake_effect_witness:
  "removed (heap example_pool 1) \<and> wake 1 50 example_pool = (example_pool, []) \<and>
   \<not> removed (heap example_pool 2) \<and>
   tasks (fst (wake 2 50 example_pool)) = [2, 0, 1] \<and>
   next_time_to_execute (heap (fst (wake 2 50 example_pool)) 2) = 30 \<and>
   snd (wake 2 50 example_pool) = [Lock_tasks_mutex, Unlock_tasks_mutex, Notify_one] \<and>
   \<not> removed (heap example_pool 0) \<and>
   tasks (fst (wake 0 50 example_pool)) = [0, 1, 2] \<and>
   next_time_to_execute (heap (fst (wake 0 50 example_pool)) 0) = 50 \<and>
   snd (wake 0 50 example_pool) =
     [Lock_tasks_mutex, Write_next_time 0 50, Unlock_tasks_mutex, Notify_one]"
  using wake_effect [of example_pool 1 50] wake_effect [of example_pool 2 50]
    wake_effect [of example_pool 0 50]
  by (simp add: example_pool_def example_heap_def)

subsection \<open>One iteration\<close>

lemma try_block_chosen:
  assumes sel: "select_task s = (s1, Some h, mt)"
    and run: "\<not> shutdown s" "\<not> shutdown_mid e"
  shows "try_block e s =
     (if removed_mid e
      then (Continue_loop, s1, [],
            [Lock_tasks_mutex, Unlock_tasks_mutex] @
            (if mt > time_before e
             then [Lock_tasks_mutex, Wait_for (of_int (mt - time_before e) + rng_draw e),
                   Unlock_tasks_mutex]
             else []) @ [Lock_shared h, Unlock_shared h])
      else
        (case invoke_task e h s1 of (x, s2, diff, ev3) \<Rightarrow>
           (x, s2, diff,
            [Lock_tasks_mutex, Unlock_tasks_mutex] @
            (if mt > time_before e
             then [Lock_tasks_mutex, Wait_for (of_int (mt - time_before e) + rng_draw e),
                   Unlock_tasks_mutex]
             else []) @ [Lock_shared h] @ ev3 @ [Unlock_shared h])))"
proof -
  have fr: "shutdown s1 = shutdown s" "heap s1 = heap s"
    using select_task_frame [OF sel] by simp_all
  have live: "\<not> removed (heap s1 h)"
    using select_task_Some(6) [OF sel] fr by simp
  show ?thesis
    using run live fr(1) by (simp add: try_block_def sel Let_def split: prod.splits)
qed

lemma invoke_task_frame:
  "invoke_task e h s = (x, s2, diff, ev) \<Longrightarrow>
     tasks s2 = tasks s \<and> shutdown s2 = shutdown s \<and> allocated s2 = allocated s \<and>
     (\<forall>h'. h' \<noteq> h \<longrightarrow> heap s2 h' = heap s h') \<and>
     removed (heap s2 h) = removed (heap s h) \<and>
     task_function (heap s2 h) = task_function (heap s h) \<and>
     diff = snd (fold increment (fst (task_function (heap s h))) (counters s, [])) \<and>
     counters s2 = fst (fold increment (fst (task_function (heap s h))) (counters s, [])) \<and>
     x \<noteq> Continue_loop \<and> x \<noteq> Break_loop"
  by (auto simp: invoke_task_def Let_def split: outcome.splits)

text \<open>
  C1. The selection never returns a removed task: the task it returns is in the list and
  its flag is false. When, after selection, the worker has taken the task's rwlock in
  shared mode and then sees the flag true, the iteration invokes no callable; it leaves
  the pool as selection left it and goes on to the next iteration (or leaves the loop,
  when shutdown was seen before).
\<close>

theorem removed_task_not_run:
  "(select_task s = (s1, Some h, mt) \<longrightarrow> h \<in> set (tasks s) \<and> \<not> removed (heap s h)) \<and>
   (select_task s = (s1, Some h, mt) \<and> (removed (heap s1 h) \<or> removed_mid e) \<longrightarrow>
      (case iteration e s of (c, s', ev) \<Rightarrow>
         (\<forall>h'. Invoke h' \<notin> set ev) \<and> s' = s1 \<and>
         (c = Continue \<longrightarrow> Lock_shared h \<in> set ev \<and> Unlock_shared h \<in> set ev)))"
proof -
  have a: "h \<in> set (tasks s) \<and> \<not> removed (heap s h)" if "select_task s = (s1, Some h, mt)"
    using select_task_Some(5,6) [OF that] by simp
  have b: "case iteration e s of (c, s', ev) \<Rightarrow>
         (\<forall>h'. Invoke h' \<notin> set ev) \<and> s' = s1 \<and>
         (c = Continue \<longrightarrow> Lock_shared h \<in> set ev \<and> Unlock_shared h \<in> set ev)"
    if sel: "select_task s = (s1, Some h, mt)" and obs: "removed (heap s1 h) \<or> removed_mid e"
    using obs by (auto simp: iteration_def try_block_def sel Let_def)
  show ?thesis
  proof (rule conjI)
    show "select_task s = (s1, Some h, mt) \<longrightarrow> h \<in> set (tasks s) \<and> \<not> removed (heap s h)"
      using a by (rule impI)
  next
    show "select_task s = (s1, Some h, mt) \<and> (removed (heap s1 h) \<or> removed_mid e) \<longrightarrow>
      (case iteration e s of (c, s', ev) \<Rightarrow>
         (\<forall>h'. Invoke h' \<notin> set ev) \<and> s' = s1 \<and>
         (c = Continue \<longrightarrow> Lock_shared h \<in> set ev \<and> Unlock_shared h \<in> set ev))"
    proof (rule impI)
      assume hyp: "select_task s = (s1, Some h, mt) \<and> (removed (heap s1 h) \<or> removed_mid e)"
      then have 1: "select_task s = (s1, Some h, mt)"
        and 2: "removed (heap s1 h) \<or> removed_mid e" by simp_all
      show "case iteration e s of (c, s', ev) \<Rightarrow>
         (\<forall>h'. Invoke h' \<notin> set ev) \<and> s' = s1 \<and>
         (c = Continue \<longrightarrow> Lock_shared h \<in> set ev \<and> Unlock_shared h \<in> set ev)"
        by (rule b [OF 1 2])
    qed
  qed
qed

theorem removed_task_not_run_witness:
  "select_task example_pool = (example_pool\<lparr>tasks := [0, 1, 2]\<rparr>, Some 2, 30) \<and>
   removed (heap example_pool 1) \<and>
   2 \<in> set (tasks example_pool) \<and> \<not> removed (heap example_pool 2) \<and>
   removed_mid (example_env\<lparr>removed_mid := True\<rparr>) \<and>
   iteration (example_env\<lparr>removed_mid := True\<rparr>) example_pool =
     (Continue, example_pool,
      [Lock_tasks_mutex, Unlock_tasks_mutex,
       Lock_tasks_mutex, Wait_for (41 / 2), Unlock_tasks_mutex,
       Lock_shared 2, Unlock_shared 2])"
proof -
  have sel: "select_task example_pool = (example_pool\<lparr>tasks := [0, 1, 2]\<rparr>, Some 2, 30)"
    by (simp add: select_task_def visit_def splice_end_def time_t_max_def
        example_pool_def example_heap_def)
  have it: "iteration (example_env\<lparr>removed_mid := True\<rparr>) example_pool =
     (Continue, example_pool,
      [Lock_tasks_mutex, Unlock_tasks_mutex,
       Lock_tasks_mutex, Wait_for (41 / 2), Unlock_tasks_mutex,
       Lock_shared 2, Unlock_shared 2])"
    by (simp add: iteration_def try_block_def sel example_env_def)
      (simp add: example_pool_def)
  show ?thesis
    using sel it
      removed_task_not_run [of example_pool "example_pool\<lparr>tasks := [0, 1, 2]\<rparr>" 2 30
        "example_env\<lparr>removed_mid := True\<rparr>"]
    by (simp add: example_pool_def example_heap_def)
qed

lemma iteration_invoked:
  assumes sel: "select_task s = (s1, Some h, mt)"
    and run: "\<not> shutdown s" "\<not> shutdown_mid e" "\<not> removed_mid e"
    and inv: "invoke_task e h s1 = (x, s2, diff, ev3)"
  shows "iteration e s =
     (if shutdown_late e then Break else Continue,
      fst (subtract_counters diff s2),
      [Lock_tasks_mutex, Unlock_tasks_mutex] @
      (if mt > time_before e
       then [Lock_tasks_mutex, Wait_for (of_int (mt - time_before e) + rng_draw e),
             Unlock_tasks_mutex]
       else []) @ [Lock_shared h] @ ev3 @ [Unlock_shared h] @
      (if x = Exception then [Log_exception] else []) @
      snd (subtract_counters diff s2) @
      (if x = Exception \<and> \<not> shutdown_late e
       then [Lock_tasks_mutex, Wait_for sleep_seconds, Unlock_tasks_mutex] else []))"
proof -
  have fr: "shutdown s1 = shutdown s" using select_task_frame [OF sel] by simp
  have x: "x \<noteq> Continue_loop" "x \<noteq> Break_loop" "shutdown s2 = shutdown s"
    using invoke_task_frame [OF inv] fr by simp_all
  obtain s3 ev2 where sub: "subtract_counters diff s2 = (s3, ev2)"
    by (cases "subtract_counters diff s2") auto
  have sh: "shutdown s3 = shutdown s"
    using x(3) sub by (auto simp: subtract_counters_def split: if_splits)
  show ?thesis
    using x(1,2) sh run
    by (simp add: iteration_def try_block_chosen [OF sel run(1,2)] inv sub Let_def)
qed

text \<open>
  C5. When the callable of the chosen task returns normally with result \<open>done_work\<close>, the
  iteration writes the task's ready time: the clock read after the call, plus nothing
  when \<open>done_work\<close> is true and plus \<^verbatim>\<open>sleep_seconds\<close> when it is false.
\<close>

theorem ready_time_after_return:
  assumes "select_task s = (s1, Some h, mt)"
    and "\<not> shutdown s" and "\<not> shutdown_mid e" and "\<not> removed_mid e"
    and "snd (task_function (heap s h)) = Returned done_work"
  shows "case iteration e s of (c, s', ev) \<Rightarrow>
     Invoke h \<in> set ev \<and>
     of_int (next_time_to_execute (heap s' h)) =
       of_int (time_after e) + (if done_work then 0 else sleep_seconds) \<and>
     next_time_to_execute (heap s' h) = (if done_work then time_after e else time_after e + 10) \<and>
     Write_next_time h (next_time_to_execute (heap s' h)) \<in> set ev"
proof -
  have fr: "heap s1 = heap s" using select_task_frame [OF assms(1)] by simp
  obtain x s2 diff ev3 where inv: "invoke_task e h s1 = (x, s2, diff, ev3)"
    by (cases "invoke_task e h s1") auto
  have t: "double_to_time_t (of_int (time_after e) + (if done_work then 0 else sleep_seconds)) =
      (if done_work then time_after e else time_after e + 10)"
    by (simp add: double_to_time_t_def sleep_seconds_def)
  have res: "next_time_to_execute (heap s2 h) = (if done_work then time_after e else time_after e + 10)"
    "Invoke h \<in> set ev3"
    "Write_next_time h (if done_work then time_after e else time_after e + 10) \<in> set ev3"
    using inv assms(5) fr t by (auto simp: invoke_task_def Let_def)
  have keep: "heap (fst (subtract_counters diff s2)) = heap s2"
    by (simp add: subtract_counters_def)
  show ?thesis
    using res keep
    by (simp add: iteration_invoked [OF assms(1-4) inv] sleep_seconds_def)
qed

theorem ready_time_after_return_witness:
  "select_task (example_pool\<lparr>tasks := [0, 1]\<rparr>) = (example_pool\<lparr>tasks := [1, 0]\<rparr>, Some 0, 100) \<and>
   \<not> shutdown (example_pool\<lparr>tasks := [0, 1]\<rparr>) \<and>
   \<not> shutdown_mid example_env \<and> \<not> removed_mid example_env \<and>
   snd (task_function (heap (example_pool\<lparr>tasks := [0, 1]\<rparr>) 0)) = Returned True \<and>
   snd (task_function (heap (fst (snd (addTask ([], Returned False) new_pool))) 0)) = Returned False \<and>
   time_after example_env = 12 \<and>
   (case iteration example_env (example_pool\<lparr>tasks := [0, 1]\<rparr>) of (c, s', ev) \<Rightarrow>
      next_time_to_execute (heap s' 0) = 12 \<and> Write_next_time 0 12 \<in> set ev) \<and>
   (case iteration example_env (fst (snd (addTask ([], Returned False) new_pool))) of
      (c, s', ev) \<Rightarrow>
        next_time_to_execute (heap s' 0) = 22 \<and> Write_next_time 0 22 \<in> set ev)"
proof -
  have sel: "select_task (example_pool\<lparr>tasks := [0, 1]\<rparr>) =
      (example_pool\<lparr>tasks := [1, 0]\<rparr>, Some 0, 100)"
    by (simp add: select_task_def visit_def splice_end_def time_t_max_def
        example_pool_def example_heap_def)
  have h2: "\<not> shutdown (example_pool\<lparr>tasks := [0, 1]\<rparr>)" by (simp add: example_pool_def)
  have h3: "\<not> shutdown_mid example_env" by (simp add: example_env_def)
  have h4: "\<not> removed_mid example_env" by (simp add: example_env_def)
  have h5: "snd (task_function (heap (example_pool\<lparr>tasks := [0, 1]\<rparr>) 0)) = Returned True"
    by (simp add: example_pool_def example_heap_def)
  have ta: "time_after example_env = 12" by (simp add: example_env_def)
  have sel': "select_task (fst (snd (addTask ([], Returned False) new_pool))) =
      (fst (snd (addTask ([], Returned False) new_pool)), Some 0, 0)"
    by (simp add: select_task_def visit_def splice_end_def time_t_max_def
        addTask_def new_pool_def)
  have k2: "\<not> shutdown (fst (snd (addTask ([], Returned False) new_pool)))"
    by (simp add: addTask_def new_pool_def)
  have k5: "snd (task_function (heap (fst (snd (addTask ([], Returned False) new_pool))) 0)) =
      Returned False"
    by (simp add: addTask_def new_pool_def)
  show ?thesis
    using sel h2 h3 h4 h5 k5 ta ready_time_after_return [OF sel h2 h3 h4 h5]
      ready_time_after_return [OF sel' k2 h3 h4 k5]
    by (auto split: prod.splits)
qed

lemma no_write_in_increment_events:
  "Write_next_time h t \<notin> set (concat (map increment_events calls))"
  by (induction calls) (auto simp: increment_events_def)

lemma subtract_counters_frame:
  "heap (fst (subtract_counters diff s)) = heap s \<and>
   tasks (fst (subtract_counters diff s)) = tasks s \<and>
   counters (fst (subtract_counters diff s)) = subtract_all diff (counters s) \<and>
   Write_next_time h t \<notin> set (snd (subtract_counters diff s))"
  by (cases diff) (auto simp: subtract_counters_def)

text \<open>
  C4. When the callable of the chosen task throws, the \<^verbatim>\<open>try\<close> block is left by the
  exception and the handler logs it: the iteration itself ends normally. No task record
  has changed (the ready time of the task is as before, no write of it occurs), the
  task is still in the list, where selection put it. Unless shutdown is seen, in which
  case the loop is left and there is no next iteration, the iteration goes on to the
  next one and the last thing it does is to wait on \<^verbatim>\<open>wake_event\<close> for \<^verbatim>\<open>sleep_seconds\<close>,
  with no random part.
\<close>

theorem exception_handling:
  assumes "select_task s = (s1, Some h, mt)"
    and "\<not> shutdown s" and "\<not> shutdown_mid e" and "\<not> removed_mid e"
    and "snd (task_function (heap s h)) = Threw"
  shows "fst (try_block e s) = Exception \<and>
    (case iteration e s of (c, s', ev) \<Rightarrow>
       Invoke h \<in> set ev \<and> Log_exception \<in> set ev \<and>
       heap s' = heap s \<and> (\<forall>t. Write_next_time h t \<notin> set ev) \<and>
       tasks s' = tasks s1 \<and> h \<in> set (tasks s') \<and>
       c = (if shutdown_late e then Break else Continue) \<and>
       (\<not> shutdown_late e \<longrightarrow>
          (\<exists>ev0. ev = ev0 @ [Lock_tasks_mutex, Wait_for sleep_seconds, Unlock_tasks_mutex])))"
proof -
  have fr: "heap s1 = heap s" using select_task_frame [OF assms(1)] by simp
  have s1: "tasks s1 = remove1 h (tasks s) @ [h]"
    using select_task_Some(1) [OF assms(1)] by simp
  define calls where "calls = fst (task_function (heap s h))"
  define c0 where "c0 = fold increment calls (counters s1, [])"
  have inv: "invoke_task e h s1 =
      (Exception, s1\<lparr>counters := fst c0\<rparr>, snd c0, Invoke h # concat (map increment_events calls))"
    using assms(5) fr by (simp add: invoke_task_def Let_def calls_def c0_def)
  have tb: "fst (try_block e s) = Exception"
    using assms(4) by (simp add: try_block_chosen [OF assms(1-3)] inv)
  note sub = subtract_counters_frame [of "snd c0" "s1\<lparr>counters := fst c0\<rparr>"]
  have it: "case iteration e s of (c, s', ev) \<Rightarrow>
       Invoke h \<in> set ev \<and> Log_exception \<in> set ev \<and>
       heap s' = heap s \<and> (\<forall>t. Write_next_time h t \<notin> set ev) \<and>
       tasks s' = tasks s1 \<and> h \<in> set (tasks s') \<and>
       c = (if shutdown_late e then Break else Continue) \<and>
       (\<not> shutdown_late e \<longrightarrow>
          (\<exists>ev0. ev = ev0 @ [Lock_tasks_mutex, Wait_for sleep_seconds, Unlock_tasks_mutex]))"
    using sub fr s1 no_write_in_increment_events [of h _ calls]
    by (simp add: iteration_invoked [OF assms(1-4) inv])
  show ?thesis using tb it by (rule conjI)
qed

theorem exception_handling_witness:
  "select_task example_pool = (example_pool, Some 2, 30) \<and>
   \<not> shutdown example_pool \<and> \<not> shutdown_mid example_env \<and> \<not> removed_mid example_env \<and>
   snd (task_function (heap example_pool 2)) = Threw \<and>
   fst (try_block example_env example_pool) = Exception \<and>
   (case iteration example_env example_pool of (c, s', ev) \<Rightarrow>
      c = Continue \<and> next_time_to_execute (heap s' 2) = 30 \<and> tasks s' = [0, 1, 2] \<and>
      Log_exception \<in> set ev \<and> Wait_for sleep_seconds \<in> set ev)"
proof -
  have sel: "select_task example_pool = (example_pool, Some 2, 30)"
    by (simp add: select_task_def visit_def splice_end_def time_t_max_def
        example_pool_def example_heap_def)
  have h2: "\<not> shutdown example_pool" by (simp add: example_pool_def)
  have h3: "\<not> shutdown_mid example_env" by (simp add: example_env_def)
  have h4: "\<not> removed_mid example_env" by (simp add: example_env_def)
  have h5: "snd (task_function (heap example_pool 2)) = Threw"
    by (simp add: example_pool_def example_heap_def)
  have h6: "\<not> shutdown_late example_env" by (simp add: example_env_def)
  have v: "next_time_to_execute (heap example_pool 2) = 30" "tasks example_pool = [0, 1, 2]"
    by (simp_all add: example_pool_def example_heap_def)
  show ?thesis
    using sel h2 h3 h4 h5 h6 v exception_handling [OF sel h2 h3 h4 h5]
    by (auto split: prod.splits)
qed

subsection \<open>Counters of one invocation\<close>

lemma counter_get_absent: "k \<notin> set (map fst c) \<Longrightarrow> counter_get c k = 0"
  by (simp add: counter_get_def map_of_eq_None_iff [THEN iffD2])

lemma subtract_all_get:
  "distinct (map fst diff) \<Longrightarrow>
     counter_get (subtract_all diff c) k = counter_get c k - counter_get diff k"
proof (induction diff arbitrary: c)
  case Nil
  then show ?case by (simp add: counter_get_def)
next
  case (Cons p diff)
  obtain k' d where p: "p = (k', d)" by (cases p)
  have absent: "k' \<notin> set (map fst diff)" and dist: "distinct (map fst diff)"
    using Cons.prems p by simp_all
  have head: "counter_get ((k', d) # diff) k = (if k = k' then d else counter_get diff k)"
    by (simp add: counter_get_def)
  show ?case
    using Cons.IH [OF dist, of "counter_upd k' (\<lambda>v. v - d) c"] counter_get_absent [OF absent]
    by (simp add: p head counter_get_upd)
qed

lemma fold_increment_get:
  "distinct (map fst d) \<Longrightarrow>
     distinct (map fst (snd (fold increment calls (c, d)))) \<and>
     counter_get (fst (fold increment calls (c, d))) k
       - counter_get (snd (fold increment calls (c, d))) k
     = counter_get c k - counter_get d k"
proof (induction calls arbitrary: c d)
  case Nil
  then show ?case by simp
next
  case (Cons call calls)
  have step: "increment call (c, d) =
      (counter_upd (fst call) (\<lambda>v. v + snd call) c, counter_upd (fst call) (\<lambda>v. v + snd call) d)"
    by (simp add: increment_def)
  have dist: "distinct (map fst (counter_upd (fst call) (\<lambda>v. v + snd call) d))"
    using Cons.prems by (rule distinct_counter_upd)
  show ?case
    using Cons.IH [OF dist, of "counter_upd (fst call) (\<lambda>v. v + snd call) c"]
    by (simp add: step counter_get_upd)
qed

text \<open>
  C2. In an iteration that invokes the callable of the chosen task, however the call
  ends, the pool's counters at the end of the iteration are those left by the call with
  every entry of \<^verbatim>\<open>counters_diff\<close> subtracted; when there is an entry, the worker locks
  and unlocks \<^verbatim>\<open>counters_mutex\<close> for this after it has released the task's rwlock. Hence
  every counter reads as before the iteration, and a task that makes no \<^verbatim>\<open>increment\<close>
  call leaves the map of counters as it was.
\<close>

theorem counters_rolled_back:
  assumes "select_task s = (s1, Some h, mt)"
    and "\<not> shutdown s" and "\<not> shutdown_mid e" and "\<not> removed_mid e"
  shows "case iteration e s of (c, s', ev) \<Rightarrow>
     Invoke h \<in> set ev \<and>
     (\<forall>name. counter_get (counters s') name =
        counter_get (fst (fold increment (fst (task_function (heap s h))) (counters s, []))) name
        - counter_get (snd (fold increment (fst (task_function (heap s h))) (counters s, []))) name) \<and>
     (snd (fold increment (fst (task_function (heap s h))) (counters s, [])) \<noteq> [] \<longrightarrow>
        (\<exists>pre post. ev = pre @ [Unlock_shared h] @ [Lock_counters_mutex, Unlock_counters_mutex]
           @ post \<or> ev = pre @ [Unlock_shared h, Log_exception] @
             [Lock_counters_mutex, Unlock_counters_mutex] @ post)) \<and>
     (\<forall>name. counter_get (counters s') name = counter_get (counters s) name) \<and>
     (fst (task_function (heap s h)) = [] \<longrightarrow> counters s' = counters s)"
proof -
  have fr: "heap s1 = heap s" "counters s1 = counters s"
    using select_task_frame [OF assms(1)] by simp_all
  define after where "after = fold increment (fst (task_function (heap s h))) (counters s, [])"
  obtain x s2 diff ev3 where inv: "invoke_task e h s1 = (x, s2, diff, ev3)"
    by (cases "invoke_task e h s1") auto
  have s2: "diff = snd after" "counters s2 = fst after"
    using invoke_task_frame [OF inv] fr by (simp_all add: after_def)
  have ev3: "Invoke h \<in> set ev3"
    using inv by (auto simp: invoke_task_def Let_def split: outcome.splits)
  have dist: "distinct (map fst (snd after))"
    and net: "counter_get (fst after) k - counter_get (snd after) k = counter_get (counters s) k" for k
    using fold_increment_get [of "[]" "fst (task_function (heap s h))" "counters s" k]
    by (simp_all add: after_def counter_get_def)
  have cs: "counters (fst (subtract_counters diff s2)) = subtract_all (snd after) (fst after)"
    using subtract_counters_frame [of diff s2] s2 by simp
  have sub: "counter_get (counters (fst (subtract_counters diff s2))) k =
      counter_get (fst after) k - counter_get (snd after) k" for k
    using subtract_all_get [OF dist] cs by simp
  have sc: "snd (subtract_counters diff s2) = [Lock_counters_mutex, Unlock_counters_mutex]"
    if "snd after \<noteq> []"
    using that s2 by (simp add: subtract_counters_def)
  have none: "counters (fst (subtract_counters diff s2)) = counters s"
    if "fst (task_function (heap s h)) = []"
    using that cs by (simp add: after_def)
  define pre0 where "pre0 =
       [Lock_tasks_mutex, Unlock_tasks_mutex] @
       (if mt > time_before e
        then [Lock_tasks_mutex, Wait_for (of_int (mt - time_before e) + rng_draw e),
              Unlock_tasks_mutex]
        else []) @ [Lock_shared h] @ ev3"
  define post0 where "post0 =
      (if x = Exception \<and> \<not> shutdown_late e
       then [Lock_tasks_mutex, Wait_for sleep_seconds, Unlock_tasks_mutex] else [])"
  have it: "iteration e s =
     (if shutdown_late e then Break else Continue,
      fst (subtract_counters diff s2),
      pre0 @ [Unlock_shared h] @ (if x = Exception then [Log_exception] else []) @
      snd (subtract_counters diff s2) @ post0)"
    by (simp add: iteration_invoked [OF assms inv] pre0_def post0_def)
  have invoked: "Invoke h \<in> set (pre0 @ [Unlock_shared h] @
      (if x = Exception then [Log_exception] else []) @ snd (subtract_counters diff s2) @ post0)"
    using ev3 by (simp add: pre0_def)
  have locked: "\<exists>pre post.
      pre0 @ [Unlock_shared h] @ (if x = Exception then [Log_exception] else []) @
        snd (subtract_counters diff s2) @ post0 =
      pre @ [Unlock_shared h] @ [Lock_counters_mutex, Unlock_counters_mutex] @ post \<or>
      pre0 @ [Unlock_shared h] @ (if x = Exception then [Log_exception] else []) @
        snd (subtract_counters diff s2) @ post0 =
      pre @ [Unlock_shared h, Log_exception] @ [Lock_counters_mutex, Unlock_counters_mutex] @ post"
    if ne: "snd after \<noteq> []"
  proof (cases "x = Exception")
    case True
    have "pre0 @ [Unlock_shared h] @ (if x = Exception then [Log_exception] else []) @
        snd (subtract_counters diff s2) @ post0 =
      pre0 @ [Unlock_shared h, Log_exception] @ [Lock_counters_mutex, Unlock_counters_mutex] @ post0"
      using True sc [OF ne] by simp
    then show ?thesis by blast
  next
    case False
    have "pre0 @ [Unlock_shared h] @ (if x = Exception then [Log_exception] else []) @
        snd (subtract_counters diff s2) @ post0 =
      pre0 @ [Unlock_shared h] @ [Lock_counters_mutex, Unlock_counters_mutex] @ post0"
      using False sc [OF ne] by simp
    then show ?thesis by blast
  qed
  show ?thesis
    unfolding it after_def [symmetric] prod.case
  proof (intro conjI allI impI)
    show "Invoke h \<in> set (pre0 @ [Unlock_shared h] @
      (if x = Exception then [Log_exception] else []) @ snd (subtract_counters diff s2) @ post0)"
      by (rule invoked)
    show "counter_get (counters (fst (subtract_counters diff s2))) name =
        counter_get (fst after) name - counter_get (snd after) name" for name
      by (rule sub)
    show "counter_get (counters (fst (subtract_counters diff s2))) name =
        counter_get (counters s) name" for name
      using sub [of name] net [of name] by simp
    show "\<exists>pre post.
      pre0 @ [Unlock_shared h] @ (if x = Exception then [Log_exception] else []) @
        snd (subtract_counters diff s2) @ post0 =
      pre @ [Unlock_shared h] @ [Lock_counters_mutex, Unlock_counters_mutex] @ post \<or>
      pre0 @ [Unlock_shared h] @ (if x = Exception then [Log_exception] else []) @
        snd (subtract_counters diff s2) @ post0 =
      pre @ [Unlock_shared h, Log_exception] @ [Lock_counters_mutex, Unlock_counters_mutex] @ post"
      if "snd after \<noteq> []"
      using that by (rule locked)
    show "counters (fst (subtract_counters diff s2)) = counters s"
      if "fst (task_function (heap s h)) = []"
      using that by (rule none)
  qed
qed

theorem counters_rolled_back_witness:
  "select_task example_pool = (example_pool, Some 2, 30) \<and>
   \<not> shutdown example_pool \<and> \<not> shutdown_mid example_env \<and> \<not> removed_mid example_env \<and>
   task_function (heap example_pool 2) = ([(''fetches'', 5), (''merges'', 1)], Threw) \<and>
   counters example_pool = [(''merges'', 1)] \<and>
   (case iteration example_env example_pool of (c, s', ev) \<Rightarrow>
      counter_get (counters s') ''merges'' = 1 \<and> counter_get (counters s') ''fetches'' = 0) \<and>
   select_task (fst (snd (addTask ([], Returned False) example_pool))) =
     ((fst (snd (addTask ([], Returned False) example_pool)))\<lparr>tasks := [0, 1, 2, 3]\<rparr>, Some 3, 0) \<and>
   fst (task_function (heap (fst (snd (addTask ([], Returned False) example_pool))) 3)) = [] \<and>
   (case iteration example_env (fst (snd (addTask ([], Returned False) example_pool))) of
      (c, s', ev) \<Rightarrow> counters s' = [(''merges'', 1)])"
proof -
  have sel: "select_task example_pool = (example_pool, Some 2, 30)"
    by (simp add: select_task_def visit_def splice_end_def time_t_max_def
        example_pool_def example_heap_def)
  have h2: "\<not> shutdown example_pool" by (simp add: example_pool_def)
  have h3: "\<not> shutdown_mid example_env" by (simp add: example_env_def)
  have h4: "\<not> removed_mid example_env" by (simp add: example_env_def)
  have f: "task_function (heap example_pool 2) = ([(''fetches'', 5), (''merges'', 1)], Threw)"
    by (simp add: example_pool_def example_heap_def)
  have c: "counters example_pool = [(''merges'', 1)]" by (simp add: example_pool_def)
  have g: "counter_get [(''merges'', 1)] ''merges'' = 1" "counter_get [(''merges'', 1)] ''fetches'' = 0"
    by (simp_all add: counter_get_def)
  have sel': "select_task (fst (snd (addTask ([], Returned False) example_pool))) =
     ((fst (snd (addTask ([], Returned False) example_pool)))\<lparr>tasks := [0, 1, 2, 3]\<rparr>, Some 3, 0)"
    by (simp add: select_task_def visit_def splice_end_def time_t_max_def
        addTask_def example_pool_def example_heap_def)
  have k2: "\<not> shutdown (fst (snd (addTask ([], Returned False) example_pool)))"
    by (simp add: addTask_def example_pool_def)
  have f': "fst (task_function (heap (fst (snd (addTask ([], Returned False) example_pool))) 3)) = []"
    by (simp add: addTask_def example_pool_def)
  have c': "counters (fst (snd (addTask ([], Returned False) example_pool))) = [(''merges'', 1)]"
    by (simp add: addTask_def example_pool_def)
  show ?thesis
    using sel h2 h3 h4 f c g sel' f' c' counters_rolled_back [OF sel h2 h3 h4]
      counters_rolled_back [OF sel' k2 h3 h4]
    by (auto split: prod.splits)
qed






subsection \<open>What the selection visits and chooses\<close>

lemma length_visited: "length (visited hp ts) \<le> 101"
  by (simp add: visited_def)

lemma visited_sublist: "set (visited hp ts) \<subseteq> {h \<in> set ts. \<not> removed (hp h)}"
  using visited_live by blast

lemma select_task_minimal:
  assumes "select_task s = (s1, Some h, mt)"
  shows "h \<in> set (visited (heap s) (tasks s)) \<and>
    (\<forall>x \<in> set (visited (heap s) (tasks s)).
       next_time_to_execute (heap s h) \<le> next_time_to_execute (heap s x))"
  using select_task_Some(2,3,4) [OF assms] by auto

text \<open>
  C8. The scan compares 101 tasks, not at most 100: in a list of 101 live tasks, the
  last of which is due earliest, the scan reaches the last task and chooses it.
\<close>

theorem scan_visits_101_tasks:
  "tasks crowded_pool = [0..<101] \<and> length (tasks crowded_pool) = 101 \<and>
   scan (heap crowded_pool) (tasks crowded_pool) 0 (time_t_max, None) = (3, Some 100) \<and>
   snd (select_task crowded_pool) = (Some 100, 3)"
  by code_simp

text \<open>
  C9, as amended. A chosen task is moved to the end of the list, and it is the first
  task of the scan with the least ready time: every task visited before it is due
  strictly later, every task visited after it is due no earlier.
\<close>

theorem chosen_is_first_minimum:
  assumes "select_task s = (s1, Some h, mt)"
  shows "tasks s1 = remove1 h (tasks s) @ [h] \<and>
    (\<exists>pre post. visited (heap s) (tasks s) = pre @ h # post \<and>
       (\<forall>x \<in> set pre. next_time_to_execute (heap s h) < next_time_to_execute (heap s x)) \<and>
       (\<forall>x \<in> set post. next_time_to_execute (heap s h) \<le> next_time_to_execute (heap s x)))"
proof -
  have mt: "mt = next_time_to_execute (heap s h)"
    by (rule select_task_Some(2) [OF assms])
  obtain pre post where pp: "visited (heap s) (tasks s) = pre @ h # post"
      "\<forall>x \<in> set pre. mt < next_time_to_execute (heap s x)"
    using select_task_Some(4) [OF assms] by blast
  have "\<forall>x \<in> set post. mt \<le> next_time_to_execute (heap s x)"
    using select_task_Some(3) [OF assms] pp(1) by simp
  then have "\<exists>pre post. visited (heap s) (tasks s) = pre @ h # post \<and>
       (\<forall>x \<in> set pre. next_time_to_execute (heap s h) < next_time_to_execute (heap s x)) \<and>
       (\<forall>x \<in> set post. next_time_to_execute (heap s h) \<le> next_time_to_execute (heap s x))"
    using pp mt by blast
  moreover have "tasks s1 = remove1 h (tasks s) @ [h]"
    using select_task_Some(1) [OF assms] by simp
  ultimately show ?thesis by simp
qed

theorem chosen_is_first_minimum_witness:
  "select_task pair_pool = (pair_pool\<lparr>tasks := [0, 1]\<rparr>, Some 1, 0) \<and>
   tasks pair_pool = [1, 0] \<and>
   visited (heap pair_pool) (tasks pair_pool) = [] @ 1 # [0] \<and>
   next_time_to_execute (heap pair_pool 1) \<le> next_time_to_execute (heap pair_pool 0) \<and>
   tasks (pair_pool\<lparr>tasks := [0, 1]\<rparr>) = remove1 1 (tasks pair_pool) @ [1]"
proof -
  have sel: "select_task pair_pool = (pair_pool\<lparr>tasks := [0, 1]\<rparr>, Some 1, 0)"
    by (simp add: select_task_def visit_def splice_end_def time_t_max_def
        pair_pool_def addTask_def new_pool_def)
  have t: "tasks pair_pool = [1, 0]"
    by (simp add: pair_pool_def addTask_def new_pool_def)
  have v: "visited (heap pair_pool) (tasks pair_pool) = [] @ 1 # [0]"
    by (simp add: visited_def pair_pool_def addTask_def new_pool_def)
  have le: "next_time_to_execute (heap pair_pool 1) \<le> next_time_to_execute (heap pair_pool 0)"
    by (simp add: pair_pool_def addTask_def new_pool_def)
  show ?thesis
    using sel t v le chosen_is_first_minimum [OF sel] by simp
qed

text \<open>
  C9, as stated, fails: two live tasks are due at the same second; the scan visits
  task 1 and then task 0, and it chooses task 1, the first one visited, not the one
  visited last.
\<close>

theorem tie_break_counterexample:
  "visited (heap pair_pool) (tasks pair_pool) = [1, 0] \<and>
   next_time_to_execute (heap pair_pool 1) = next_time_to_execute (heap pair_pool 0) \<and>
   last (visited (heap pair_pool) (tasks pair_pool)) = 0 \<and>
   snd (select_task pair_pool) = (Some 1, 0) \<and>
   tasks (fst (select_task pair_pool)) = [0, 1]"
  by (simp add: visited_def select_task_def visit_def splice_end_def time_t_max_def
      pair_pool_def addTask_def new_pool_def)

subsection \<open>Writes of the ready time and \<^verbatim>\<open>tasks_mutex\<close>\<close>

lemma wake_writes_under_tasks_mutex: "writes_under_tasks_mutex False (snd (wake h now s))"
  by (simp add: wake_def Let_def)

lemma iteration_writes_chosen_only:
  assumes sel: "select_task s = (s1, Some h, mt)"
    and w: "Write_next_time h' t \<in> set (snd (snd (iteration e s)))"
  shows "h' = h \<and> Invoke h \<in> set (snd (snd (iteration e s)))"
proof (cases "shutdown s \<or> shutdown_mid e")
  case True
  have "shutdown s1 = shutdown s" using select_task_frame [OF sel] by simp
  then have "snd (snd (iteration e s)) = [Lock_tasks_mutex, Unlock_tasks_mutex]"
    using True by (auto simp: iteration_def try_block_def sel)
  then show ?thesis using w by simp
next
  case False
  then have run: "\<not> shutdown s" "\<not> shutdown_mid e" by simp_all
  show ?thesis
  proof (cases "removed_mid e")
    case True
    then show ?thesis
      using w by (auto simp: iteration_def try_block_chosen [OF sel run] split: if_splits)
  next
    case live: False
    obtain x s2 diff ev3 where inv: "invoke_task e h s1 = (x, s2, diff, ev3)"
      by (cases "invoke_task e h s1") auto
    have ev3: "Invoke h \<in> set ev3" "Write_next_time h' t \<in> set ev3 \<Longrightarrow> h' = h"
      using inv no_write_in_increment_events [of h' t]
      by (auto simp: invoke_task_def Let_def split: outcome.splits)
    have sub: "Write_next_time h' t \<notin> set (snd (subtract_counters diff s2))"
      using subtract_counters_frame [of diff s2 h' t] by simp
    show ?thesis
      using w ev3 sub
      by (auto simp: iteration_invoked [OF sel run live inv] split: if_splits)
  qed
qed

text \<open>
  C10. The worker writes the ready time of the task it has just run while it holds the
  task's rwlock in shared mode but not \<^verbatim>\<open>tasks_mutex\<close>, which it released after the
  selection: in this iteration task 1 is chosen, invoked, and its ready time is written
  after the unlock.
\<close>

theorem worker_writes_without_tasks_mutex:
  "snd (snd (iteration example_env pair_pool)) =
     [Lock_tasks_mutex, Unlock_tasks_mutex, Lock_shared 1, Invoke 1,
      Write_next_time 1 12, Unlock_shared 1] \<and>
   \<not> writes_under_tasks_mutex False (snd (snd (iteration example_env pair_pool)))"
proof -
  have tr: "snd (snd (iteration example_env pair_pool)) =
     [Lock_tasks_mutex, Unlock_tasks_mutex, Lock_shared 1, Invoke 1,
      Write_next_time 1 12, Unlock_shared 1]"
    by (simp add: iteration_def try_block_def select_task_def visit_def splice_end_def
      time_t_max_def invoke_task_def subtract_counters_def double_to_time_t_def Let_def
      pair_pool_def addTask_def new_pool_def example_env_def)
  show ?thesis unfolding tr by simp
qed


end
